theory Spec2Isabelle
  imports Main
begin

section \<open>ContentLink: the controller lifecycle of a behaviour-only component\<close>

text \<open>
  The source is one function component, \<^verbatim>\<open>src/components/ContentLink/index.tsx\<close>.
  It owns a reference slot (\<^verbatim>\<open>controllerRef\<close>) and registers two effects:
  \<^item> the mount effect, keyed to \<^verbatim>\<open>[router]\<close>: it calls \<^verbatim>\<open>createController\<close> with a
    handler that forwards to \<^verbatim>\<open>router.push\<close>, stores the controller in the slot and
    returns a cleanup that disposes the controller and clears the slot;
  \<^item> the path effect, keyed to \<^verbatim>\<open>[pathname]\<close>: it calls
    \<^verbatim>\<open>controllerRef.current?.setCurrentPath(pathname)\<close>.

  The collaborators (the controller library and the router) are opaque. What the
  component does to them is recorded as a trace of calls. Objects are compared by
  identity in the source, so a router and a controller are modelled by an identity
  number; \<^verbatim>\<open>createController\<close> returns a new object on every call, which is a
  counter of controllers handed out so far.
\<close>

type_synonym router = nat
type_synonym controller = nat
type_synonym path = string

datatype call =
    Construct controller router
  | SetCurrentPath controller path
  | Dispose controller
  | RouterPush router path

text \<open>
  \<open>Construct c r\<close> is the call \<^verbatim>\<open>createController({ onNavigateTo })\<close> that returned
  controller \<open>c\<close>, where the handler passed closes over router \<open>r\<close>.

  The state: the slot of \<^verbatim>\<open>useRef\<close>, what the effect hooks remember between renders
  (the cleanup returned by the last run of the mount effect, which closes over the
  local \<^verbatim>\<open>controller\<close>, and the dependency values of the last render; no dependencies
  means that the component is not mounted), and the collaborators' side: the trace,
  the handler each controller was configured with, and the controller counter.
\<close>

record state =
  controllerRef :: "controller option"
  cleanup :: "controller option"
  deps :: "(router \<times> path) option"
  calls :: "call list"
  handlers :: "(controller \<times> router) list"
  fresh :: nat

definition init :: state where
  "init = \<lparr>controllerRef = None, cleanup = None, deps = None, calls = [],
           handlers = [], fresh = 0\<rparr>"

subsection \<open>The code of the component\<close>

text \<open>\<^verbatim>\<open>createController({ onNavigateTo: (path) => { router.push(path) } })\<close>\<close>

definition createController :: "router \<Rightarrow> state \<Rightarrow> controller \<times> state" where
  "createController r s =
     (fresh s,
      s\<lparr>calls := calls s @ [Construct (fresh s) r],
        handlers := handlers s @ [(fresh s, r)],
        fresh := Suc (fresh s)\<rparr>)"

text \<open>
  The body of the first effect (lines 40 to 66). It returns the cleanup, which is
  determined by the controller it closes over.
\<close>

definition mount_effect :: "router \<Rightarrow> state \<Rightarrow> controller \<times> state" where
  "mount_effect r s =
     (let (controller, s1) = createController r s
      in (controller, s1\<lparr>controllerRef := Some controller\<rparr>))"

text \<open>The cleanup: \<^verbatim>\<open>controller.dispose(); controllerRef.current = null\<close>.\<close>

definition mount_cleanup :: "controller \<Rightarrow> state \<Rightarrow> state" where
  "mount_cleanup controller s =
     s\<lparr>calls := calls s @ [Dispose controller], controllerRef := None\<rparr>"

text \<open>The body of the second effect: \<^verbatim>\<open>controllerRef.current?.setCurrentPath(pathname)\<close>.\<close>

definition path_effect :: "path \<Rightarrow> state \<Rightarrow> state" where
  "path_effect pathname s =
     (case controllerRef s of
        None \<Rightarrow> s
      | Some c \<Rightarrow> s\<lparr>calls := calls s @ [SetCurrentPath c pathname]\<rparr>)"

text \<open>The handler: \<^verbatim>\<open>(path) => { router.push(path) }\<close>, for the router it closes over.\<close>

definition onNavigateTo :: "router \<Rightarrow> path \<Rightarrow> state \<Rightarrow> state" where
  "onNavigateTo r p s = s\<lparr>calls := calls s @ [RouterPush r p]\<rparr>"

subsection \<open>The effect lifecycle that runs the code\<close>

text \<open>
  The host framework runs the callbacks one at a time, each to completion. On the
  first render both effects run in the order of their declaration. On a later render
  an effect runs again when its dependency differs from the one of the previous
  render: first the cleanup of the effect that changed, then the effect bodies in
  the order of their declaration. On unmount the pending cleanup runs. The second
  effect returns no cleanup. The controller may call the handler it was given.
\<close>

datatype callback =
    MountEffect router
  | MountCleanup
  | PathEffect path
  | Handler router path

fun exec :: "callback \<Rightarrow> state \<Rightarrow> state" where
  "exec (MountEffect r) s =
     (let (c, s1) = mount_effect r s in s1\<lparr>cleanup := Some c\<rparr>)"
| "exec MountCleanup s =
     (case cleanup s of
        None \<Rightarrow> s
      | Some c \<Rightarrow> (mount_cleanup c s)\<lparr>cleanup := None\<rparr>)"
| "exec (PathEffect p) s = path_effect p s"
| "exec (Handler r p) s = onNavigateTo r p s"

datatype event =
    Render router path
  | Unmount
  | NavigateTo controller path

text \<open>
  \<open>Render r p\<close>: the component renders with \<^verbatim>\<open>useRouter()\<close> = \<open>r\<close> and
  \<^verbatim>\<open>usePathname()\<close> = \<open>p\<close>; it is the mount when the component is not mounted.
  \<open>NavigateTo c p\<close>: controller \<open>c\<close> invokes the handler it was constructed with.
\<close>

fun schedule :: "state \<Rightarrow> event \<Rightarrow> callback list" where
  "schedule s (Render r p) =
     (case deps s of
        None \<Rightarrow> [MountEffect r, PathEffect p]
      | Some (r0, p0) \<Rightarrow>
          (if r = r0 then [] else [MountCleanup, MountEffect r]) @
          (if p = p0 then [] else [PathEffect p]))"
| "schedule s Unmount =
     (case deps s of None \<Rightarrow> [] | Some d \<Rightarrow> [MountCleanup])"
| "schedule s (NavigateTo c p) =
     (case map_of (handlers s) c of None \<Rightarrow> [] | Some r \<Rightarrow> [Handler r p])"

fun commit :: "event \<Rightarrow> state \<Rightarrow> state" where
  "commit (Render r p) s = s\<lparr>deps := Some (r, p)\<rparr>"
| "commit Unmount s = s\<lparr>deps := None\<rparr>"
| "commit (NavigateTo c p) s = s"

definition step :: "state \<Rightarrow> event \<Rightarrow> state" where
  "step s e = commit e (fold exec (schedule s e) s)"

definition run_from :: "state \<Rightarrow> event list \<Rightarrow> state" where
  "run_from s es = foldl step s es"

definition run :: "event list \<Rightarrow> state" where
  "run es = run_from init es"

text \<open>The states between the callbacks of a schedule, the first and the last included.\<close>

fun trajectory :: "callback list \<Rightarrow> state \<Rightarrow> state list" where
  "trajectory [] s = [s]"
| "trajectory (cb # cbs) s = s # trajectory cbs (exec cb s)"

subsection \<open>Reading the trace\<close>

fun constructs :: "call \<Rightarrow> (controller \<times> router) list" where
  "constructs (Construct c r) = [(c, r)]"
| "constructs (SetCurrentPath c p) = []"
| "constructs (Dispose c) = []"
| "constructs (RouterPush r p) = []"

fun disposals :: "call \<Rightarrow> controller list" where
  "disposals (Construct c r) = []"
| "disposals (SetCurrentPath c p) = []"
| "disposals (Dispose c) = [c]"
| "disposals (RouterPush r p) = []"

fun reports :: "call \<Rightarrow> (controller \<times> path) list" where
  "reports (Construct c r) = []"
| "reports (SetCurrentPath c p) = [(c, p)]"
| "reports (Dispose c) = []"
| "reports (RouterPush r p) = []"

definition construct_log :: "call list \<Rightarrow> (controller \<times> router) list" where
  "construct_log cs = concat (map constructs cs)"

definition constructed :: "call list \<Rightarrow> controller list" where
  "constructed cs = map fst (construct_log cs)"

definition dispose_log :: "call list \<Rightarrow> controller list" where
  "dispose_log cs = concat (map disposals cs)"

definition path_log :: "call list \<Rightarrow> (controller \<times> path) list" where
  "path_log cs = concat (map reports cs)"

text \<open>The controllers that were constructed and not disposed since.\<close>

definition live :: "call list \<Rightarrow> controller list" where
  "live cs = filter (\<lambda>c. c \<notin> set (dispose_log cs)) (constructed cs)"

definition slot :: "state \<Rightarrow> controller list" where
  "slot s = (case controllerRef s of None \<Rightarrow> [] | Some c \<Rightarrow> [c])"

text \<open>The calls that an event added to the trace.\<close>

definition added :: "state \<Rightarrow> state \<Rightarrow> call list" where
  "added s s' = drop (length (calls s)) (calls s')"

definition keeps_path :: "path \<Rightarrow> event \<Rightarrow> bool" where
  "keeps_path p e = (case e of Render r q \<Rightarrow> q = p | Unmount \<Rightarrow> True | NavigateTo c q \<Rightarrow> True)"

subsection \<open>Invariants of the lifecycle\<close>

text \<open>
  Ownership: the library configured each controller with the handler of its
  construction; the controllers constructed so far are \<open>0, 1, \<dots>\<close> up to the counter;
  they were disposed in the order of their construction, all but the one in the slot,
  which is the last one constructed; and the pending cleanup closes over the
  controller in the slot.
\<close>

definition ownership_inv :: "state \<Rightarrow> bool" where
  "ownership_inv s \<longleftrightarrow>
     handlers s = construct_log (calls s) \<and>
     constructed (calls s) = [0..<fresh s] \<and>
     dispose_log (calls s) @ slot s = [0..<fresh s] \<and>
     cleanup s = controllerRef s"

text \<open>
  Order: a path report goes to a controller constructed and not disposed before the
  report, and a forwarded navigation goes to a router for which a handler was passed
  to a construction before.
\<close>

fun admissible :: "call list \<Rightarrow> call \<Rightarrow> bool" where
  "admissible cs (Construct c r) = True"
| "admissible cs (SetCurrentPath c p) =
     (c \<in> set (constructed cs) \<and> c \<notin> set (dispose_log cs))"
| "admissible cs (Dispose c) = True"
| "admissible cs (RouterPush r p) = (r \<in> snd ` set (construct_log cs))"

definition ordered :: "call list \<Rightarrow> bool" where
  "ordered cs \<longleftrightarrow> (\<forall>i<length cs. admissible (take i cs) (cs ! i))"

text \<open>
  Between callbacks ownership and order hold; between events the component is
  moreover mounted exactly when the slot is filled.
\<close>

definition callback_inv :: "state \<Rightarrow> bool" where
  "callback_inv s \<longleftrightarrow> ownership_inv s \<and> ordered (calls s)"

definition lifecycle_inv :: "state \<Rightarrow> bool" where
  "lifecycle_inv s \<longleftrightarrow> callback_inv s \<and> (deps s = None \<longleftrightarrow> controllerRef s = None)"

section \<open>Basic facts\<close>

lemma construct_log_simps [simp]:
  "construct_log [] = []"
  "construct_log (x # xs) = constructs x @ construct_log xs"
  "construct_log (xs @ ys) = construct_log xs @ construct_log ys"
  by (simp_all add: construct_log_def)

lemma dispose_log_simps [simp]:
  "dispose_log [] = []"
  "dispose_log (x # xs) = disposals x @ dispose_log xs"
  "dispose_log (xs @ ys) = dispose_log xs @ dispose_log ys"
  by (simp_all add: dispose_log_def)

lemma path_log_simps [simp]:
  "path_log [] = []"
  "path_log (x # xs) = reports x @ path_log xs"
  "path_log (xs @ ys) = path_log xs @ path_log ys"
  by (simp_all add: path_log_def)

lemma constructed_simps [simp]:
  "constructed [] = []"
  "constructed (x # xs) = map fst (constructs x) @ constructed xs"
  "constructed (xs @ ys) = constructed xs @ constructed ys"
  by (simp_all add: constructed_def)

lemma in_construct_log: "(c, r) \<in> set (construct_log cs) \<longleftrightarrow> Construct c r \<in> set cs"
proof (induction cs)
  case Nil
  show ?case by simp
next
  case (Cons x xs)
  then show ?case by (cases x) auto
qed

lemma in_dispose_log: "c \<in> set (dispose_log cs) \<longleftrightarrow> Dispose c \<in> set cs"
proof (induction cs)
  case Nil
  show ?case by simp
next
  case (Cons x xs)
  then show ?case by (cases x) auto
qed

lemma in_path_log: "(c, p) \<in> set (path_log cs) \<longleftrightarrow> SetCurrentPath c p \<in> set cs"
proof (induction cs)
  case Nil
  show ?case by simp
next
  case (Cons x xs)
  then show ?case by (cases x) auto
qed

lemma run_from_simps [simp]:
  "run_from s [] = s"
  "run_from s (e # es) = run_from (step s e) es"
  "run_from s (es @ fs) = run_from (run_from s es) fs"
  by (simp_all add: run_from_def)

lemma ordered_Nil [simp]: "ordered []"
  by (simp add: ordered_def)

lemma ordered_snoc: "ordered (cs @ [x]) \<longleftrightarrow> ordered cs \<and> admissible cs x"
proof -
  have "(\<forall>i<Suc (length cs). admissible (take i (cs @ [x])) ((cs @ [x]) ! i)) \<longleftrightarrow>
        (\<forall>i<length cs. admissible (take i (cs @ [x])) ((cs @ [x]) ! i)) \<and>
        admissible (take (length cs) (cs @ [x])) ((cs @ [x]) ! length cs)"
    by (simp add: less_Suc_eq all_conj_distrib)
  then show ?thesis
    by (simp add: ordered_def nth_append)
qed

lemma slot_simps [simp]:
  "controllerRef s = None \<Longrightarrow> slot s = []"
  "controllerRef s = Some c \<Longrightarrow> slot s = [c]"
  by (simp_all add: slot_def)

lemma callback_inv_cleanup:
  assumes "callback_inv s"
  shows "callback_inv (exec MountCleanup s)" and "controllerRef (exec MountCleanup s) = None"
    and "fresh (exec MountCleanup s) = fresh s"
  using assms
  by (auto simp: callback_inv_def ownership_inv_def mount_cleanup_def ordered_snoc slot_def split: option.splits)

lemma callback_inv_mount:
  assumes "callback_inv s" "controllerRef s = None"
  shows "callback_inv (exec (MountEffect r) s)" and "controllerRef (exec (MountEffect r) s) = Some (fresh s)"
    and "fresh (exec (MountEffect r) s) = Suc (fresh s)"
  using assms
  by (auto simp: callback_inv_def ownership_inv_def mount_effect_def createController_def ordered_snoc slot_def)

lemma callback_inv_path:
  assumes "callback_inv s"
  shows "callback_inv (exec (PathEffect p) s)" and "controllerRef (exec (PathEffect p) s) = controllerRef s"
    and "fresh (exec (PathEffect p) s) = fresh s"
proof -
  show "controllerRef (exec (PathEffect p) s) = controllerRef s" "fresh (exec (PathEffect p) s) = fresh s"
    by (simp_all add: path_effect_def split: option.splits)
  show "callback_inv (exec (PathEffect p) s)"
  proof (cases "controllerRef s")
    case None
    with assms show ?thesis by (simp add: path_effect_def)
  next
    case (Some c)
    from assms have ci: "ownership_inv s" and o: "ordered (calls s)" by (simp_all add: callback_inv_def)
    from ci Some have d: "dispose_log (calls s) @ [c] = [0..<fresh s]"
      and k: "constructed (calls s) = [0..<fresh s]" by (simp_all add: ownership_inv_def)
    have "distinct (dispose_log (calls s) @ [c])" by (simp only: d distinct_upt)
    then have n: "c \<notin> set (dispose_log (calls s))" by simp
    have "c \<in> set (dispose_log (calls s) @ [c])" by simp
    then have m: "c \<in> set (constructed (calls s))" by (simp only: d k)
    from ci o n m Some show ?thesis
      by (simp add: callback_inv_def ownership_inv_def path_effect_def ordered_snoc slot_def)
  qed
qed

lemma callback_inv_handler:
  assumes "callback_inv s" "map_of (handlers s) c = Some r"
  shows "callback_inv (exec (Handler r p) s)" and "controllerRef (exec (Handler r p) s) = controllerRef s"
    and "fresh (exec (Handler r p) s) = fresh s"
proof -
  from assms(2) have "(c, r) \<in> set (handlers s)" by (rule map_of_SomeD)
  with assms(1) have "r \<in> snd ` set (construct_log (calls s))"
    by (force simp: callback_inv_def ownership_inv_def)
  with assms(1) show "callback_inv (exec (Handler r p) s)"
    by (simp add: callback_inv_def ownership_inv_def onNavigateTo_def ordered_snoc slot_def)
qed (simp_all add: onNavigateTo_def)

lemma callback_inv_deps_update [simp]: "callback_inv (s\<lparr>deps := d\<rparr>) = callback_inv s"
  by (simp add: callback_inv_def ownership_inv_def slot_def)

lemma callback_inv_commit [simp]: "callback_inv (commit e s) = callback_inv s"
  by (cases e) simp_all

lemma commit_fields [simp]:
  "controllerRef (commit e s) = controllerRef s"
  "calls (commit e s) = calls s"
  "fresh (commit e s) = fresh s"
  "cleanup (commit e s) = cleanup s"
  "handlers (commit e s) = handlers s"
  by (cases e; simp)+

lemma last_trajectory: "last (trajectory cbs s) = fold exec cbs s"
  by (induction cbs arbitrary: s) (auto simp: neq_Nil_conv elim: trajectory.elims)

lemma trajectory_callback_inv:
  assumes "lifecycle_inv s" "t \<in> set (trajectory (schedule s e) s)"
  shows "callback_inv t"
proof -
  from assms(1) have c: "callback_inv s" and m: "deps s = None \<longleftrightarrow> controllerRef s = None"
    by (simp_all add: lifecycle_inv_def)
  note cl = callback_inv_cleanup [OF c]
  show ?thesis
  proof (cases e)
    case (Render r p)
    show ?thesis
    proof (cases "deps s")
      case None
      with m have n: "controllerRef s = None" by simp
      note mo = callback_inv_mount [OF c n, of r]
      from callback_inv_path(1) [OF mo(1), of p] mo(1) c assms(2) Render None show ?thesis
        by auto
    next
      case (Some d)
      obtain r0 p0 where d: "d = (r0, p0)" by (cases d)
      note mo = callback_inv_mount [OF cl(1) cl(2), of r]
      from callback_inv_path(1) [OF mo(1), of p] callback_inv_path(1) [OF c, of p] mo(1) cl(1) c assms(2)
        Render Some d
      show ?thesis
        by (auto split: if_splits)
    qed
  next
    case Unmount
    with cl(1) c assms(2) show ?thesis
      by (auto split: option.splits)
  next
    case (NavigateTo k p)
    show ?thesis
    proof (cases "map_of (handlers s) k")
      case None
      with c assms(2) NavigateTo show ?thesis by simp
    next
      case (Some r)
      from callback_inv_handler(1) [OF c Some, of p] c assms(2) NavigateTo Some show ?thesis
        by auto
    qed
  qed
qed

lemma inv_step:
  assumes "lifecycle_inv s"
  shows "lifecycle_inv (step s e)"
proof -
  from assms have c: "callback_inv s" and m: "deps s = None \<longleftrightarrow> controllerRef s = None"
    by (simp_all add: lifecycle_inv_def)
  have "fold exec (schedule s e) s \<in> set (trajectory (schedule s e) s)"
    by (metis last_trajectory last_in_set trajectory.simps(1) trajectory.elims list.distinct(1))
  with assms have "callback_inv (fold exec (schedule s e) s)" by (rule trajectory_callback_inv)
  then have 1: "callback_inv (step s e)" by (simp add: step_def)
  note cl = callback_inv_cleanup [OF c]
  have 2: "deps (step s e) = None \<longleftrightarrow> controllerRef (step s e) = None"
  proof (cases e)
    case (Render r p)
    show ?thesis
    proof (cases "deps s")
      case None
      with m have n: "controllerRef s = None" by simp
      note mo = callback_inv_mount [OF c n, of r]
      from callback_inv_path(2) [OF mo(1), of p] mo(2) Render None show ?thesis
        by (simp add: step_def)
    next
      case (Some d)
      obtain r0 p0 where d: "d = (r0, p0)" by (cases d)
      note mo = callback_inv_mount [OF cl(1) cl(2), of r]
      from callback_inv_path(2) [OF mo(1), of p] callback_inv_path(2) [OF c, of p] mo(2) m Render Some d
      show ?thesis
        by (auto simp: step_def)
    qed
  next
    case Unmount
    with cl(2) m show ?thesis
      by (auto simp: step_def split: option.splits)
  next
    case (NavigateTo k p)
    with m show ?thesis
      by (auto simp: step_def onNavigateTo_def split: option.splits)
  qed
  from 1 2 show ?thesis by (simp add: lifecycle_inv_def)
qed

lemma inv_init: "lifecycle_inv init"
  by (simp add: lifecycle_inv_def callback_inv_def ownership_inv_def init_def slot_def)

lemma inv_run_from: "lifecycle_inv s \<Longrightarrow> lifecycle_inv (run_from s es)"
  by (induction es arbitrary: s) (simp_all add: inv_step)

lemma inv_run: "lifecycle_inv (run es)"
  by (simp add: run_def inv_run_from inv_init)


lemmas lifecycle_defs = run_def run_from_def init_def step_def mount_effect_def
  createController_def path_effect_def mount_cleanup_def onNavigateTo_def

lemma inv_facts:
  assumes "lifecycle_inv s"
  shows "handlers s = construct_log (calls s)"
    and "constructed (calls s) = [0..<fresh s]"
    and "dispose_log (calls s) @ slot s = [0..<fresh s]"
    and "cleanup s = controllerRef s"
    and "ordered (calls s)"
    and "deps s = None \<longleftrightarrow> controllerRef s = None"
  using assms by (simp_all add: lifecycle_inv_def callback_inv_def ownership_inv_def)

lemma callback_inv_live:
  assumes "callback_inv t"
  shows "live (calls t) = slot t"
proof -
  from assms have k: "constructed (calls t) = dispose_log (calls t) @ slot t"
    and d: "distinct (dispose_log (calls t) @ slot t)"
    by (simp_all add: callback_inv_def ownership_inv_def)
  from d have "filter (\<lambda>c. c \<notin> set (dispose_log (calls t))) (slot t) = slot t"
    by (auto simp: filter_id_conv)
  then show ?thesis
    by (simp add: live_def k)
qed

lemma callback_inv_last:
  assumes "callback_inv t" "controllerRef t = Some c"
  shows "constructed (calls t) \<noteq> [] \<and> last (constructed (calls t)) = c"
proof -
  from assms have "constructed (calls t) = dispose_log (calls t) @ [c]"
    by (simp add: callback_inv_def ownership_inv_def)
  then show ?thesis by simp
qed

lemma count_list_distinct:
  "distinct xs \<Longrightarrow> count_list xs c = (if c \<in> set xs then 1 else 0)"
  by (induction xs) auto

lemma reported_lt_fresh:
  assumes "lifecycle_inv s" "(c, q) \<in> set (path_log (calls s))"
  shows "c < fresh s"
proof -
  note f = inv_facts [OF assms(1)]
  from assms(2) have "SetCurrentPath c q \<in> set (calls s)" by (simp add: in_path_log)
  then obtain i where i: "i < length (calls s)" "calls s ! i = SetCurrentPath c q"
    by (auto simp: in_set_conv_nth)
  with f(5) have "c \<in> set (constructed (take i (calls s)))"
    by (auto simp: ordered_def)
  moreover have "constructed (calls s) = constructed (take i (calls s)) @ constructed (drop i (calls s))"
    by (simp only: constructed_simps(3) [symmetric] append_take_drop_id)
  ultimately have "c \<in> set (constructed (calls s))" by simp
  with f(2) show ?thesis by simp
qed

lemma silent_step:
  assumes "lifecycle_inv t" "k < fresh t" "k \<notin> fst ` set (path_log (calls t))"
    "controllerRef t = Some k \<longrightarrow> (\<exists>r. deps t = Some (r, p))" "keeps_path p e"
  shows "k < fresh (step t e)" and "k \<notin> fst ` set (path_log (calls (step t e)))"
    and "controllerRef (step t e) = Some k \<longrightarrow> (\<exists>r. deps (step t e) = Some (r, p))"
proof -
  note f = inv_facts [OF assms(1)]
  show "k < fresh (step t e)"
    using assms(2)
    by (cases e) (auto simp: step_def mount_effect_def createController_def path_effect_def
        mount_cleanup_def onNavigateTo_def split: option.splits)
  show "k \<notin> fst ` set (path_log (calls (step t e)))"
    using assms(2-5) f(4) f(6)
    by (cases e) (auto simp: step_def mount_effect_def createController_def path_effect_def
        mount_cleanup_def onNavigateTo_def keeps_path_def split: option.splits)
  show "controllerRef (step t e) = Some k \<longrightarrow> (\<exists>r. deps (step t e) = Some (r, p))"
    using assms(2-5) f(4) f(6)
    by (cases e) (auto simp: step_def mount_effect_def createController_def path_effect_def
        mount_cleanup_def onNavigateTo_def keeps_path_def split: option.splits)
qed

lemma silent_run_from:
  assumes "list_all (keeps_path p) fs" "lifecycle_inv t" "k < fresh t"
    "k \<notin> fst ` set (path_log (calls t))"
    "controllerRef t = Some k \<longrightarrow> (\<exists>r. deps t = Some (r, p))"
  shows "k \<notin> fst ` set (path_log (calls (run_from t fs)))"
  using assms
proof (induction fs arbitrary: t)
  case Nil
  then show ?case by simp
next
  case (Cons e fs)
  from Cons.prems(1) have e: "keeps_path p e" and fs: "list_all (keeps_path p) fs" by simp_all
  note st = silent_step [OF Cons.prems(2-5) e]
  from Cons.IH [OF fs inv_step [OF Cons.prems(2)] st] show ?case by simp
qed

lemma length_trajectory: "length (trajectory cbs s) = Suc (length cbs)"
  by (induction cbs arbitrary: s) simp_all

lemma trajectory_Suc:
  "i < length cbs \<Longrightarrow> trajectory cbs s ! Suc i = exec (cbs ! i) (trajectory cbs s ! i)"
proof (induction cbs arbitrary: s i)
  case Nil
  then show ?case by simp
next
  case (Cons cb cbs)
  show ?case
  proof (cases i)
    case 0
    then show ?thesis by (cases cbs) simp_all
  next
    case (Suc j)
    with Cons.prems have "j < length cbs" by simp
    from Cons.IH [OF this, of "exec cb s"] Suc show ?thesis by simp
  qed
qed

lemma calls_exec:
  "calls (exec cb t) = calls t @ added t (exec cb t)"
  by (cases cb)
    (simp_all add: added_def mount_effect_def createController_def mount_cleanup_def
      path_effect_def onNavigateTo_def split: option.splits)

lemma report_added:
  assumes "SetCurrentPath c p \<in> set (added t (exec cb t))"
  shows "cb = PathEffect p \<and> controllerRef t = Some c"
  using assms
  by (cases cb)
    (auto simp: added_def mount_effect_def createController_def mount_cleanup_def
      path_effect_def onNavigateTo_def split: option.splits)

lemma push_added:
  assumes "RouterPush r q \<in> set (added t (exec cb t))"
  shows "cb = Handler r q"
  using assms
  by (cases cb)
    (auto simp: added_def mount_effect_def createController_def mount_cleanup_def
      path_effect_def onNavigateTo_def split: option.splits)

lemma handler_scheduled:
  assumes "Handler r q \<in> set (schedule s e)"
  shows "\<exists>k. e = NavigateTo k q \<and> map_of (handlers s) k = Some r \<and> schedule s e = [Handler r q]"
proof (cases e)
  case (Render r' p')
  with assms show ?thesis by (auto split: option.splits if_splits)
next
  case Unmount
  with assms show ?thesis by (auto split: option.splits)
next
  case (NavigateTo k q')
  show ?thesis
  proof (cases "map_of (handlers s) k")
    case None
    with assms NavigateTo show ?thesis by simp
  next
    case (Some r')
    with assms NavigateTo show ?thesis by simp
  qed
qed

lemma fresh_step:
  assumes "lifecycle_inv s"
  shows "fresh (step s e) = fresh s \<or>
         (fresh (step s e) = Suc (fresh s) \<and> controllerRef (step s e) = Some (fresh s))"
proof -
  note f = inv_facts [OF assms]
  show ?thesis
    using f(4) f(6)
    by (cases e) (auto simp: step_def mount_effect_def createController_def path_effect_def
        mount_cleanup_def onNavigateTo_def split: option.splits)
qed

lemma was_in_slot:
  "k < fresh (run es) \<Longrightarrow> \<exists>n\<le>length es. controllerRef (run (take n es)) = Some k"
proof (induction es rule: rev_induct)
  case Nil
  then show ?case by (simp add: run_def init_def)
next
  case (snoc e es)
  have st: "run (es @ [e]) = step (run es) e" by (simp add: run_def)
  show ?case
  proof (cases "k < fresh (run es)")
    case True
    from snoc.IH [OF this] obtain n where n: "n \<le> length es" "controllerRef (run (take n es)) = Some k"
      by blast
    then have "n \<le> length (es @ [e]) \<and> controllerRef (run (take n (es @ [e]))) = Some k"
      by simp
    then show ?thesis by blast
  next
    case False
    with snoc.prems fresh_step [OF inv_run [of es], of e]
    have "controllerRef (run (es @ [e])) = Some k"
      by (auto simp: st)
    then have "length (es @ [e]) \<le> length (es @ [e]) \<and>
               controllerRef (run (take (length (es @ [e])) (es @ [e]))) = Some k"
      by simp
    then show ?thesis by blast
  qed
qed


section \<open>The claims\<close>

text \<open>
  Claim C1. Over every sequence of events (mounts, re-renders with a changed or an
  unchanged router, unmounts, navigation requests) no controller is constructed twice;
  a controller has exactly one dispose call when it was constructed and is no longer
  in the slot, and none otherwise; and once the component is unmounted the disposed
  controllers are the constructed ones, each once and in the same order.
\<close>

theorem dispose_once_per_construct:
  "count_list (constructed (calls (run es))) c \<le> 1 \<and>
   count_list (dispose_log (calls (run es))) c =
     (if c \<in> set (constructed (calls (run es))) \<and> controllerRef (run es) \<noteq> Some c
      then 1 else 0) \<and>
   (deps (run es) = None \<longrightarrow>
      dispose_log (calls (run es)) = constructed (calls (run es)))"
proof -
  let ?s = "run es"
  note f = inv_facts [OF inv_run [of es]]
  have dk: "distinct (constructed (calls ?s))"
    by (simp only: f(2) distinct_upt)
  have k: "constructed (calls ?s) = dispose_log (calls ?s) @ slot ?s"
    by (simp only: f(2) f(3))
  from dk have dd: "distinct (dispose_log (calls ?s) @ slot ?s)"
    by (simp only: k)
  have 1: "count_list (constructed (calls ?s)) c \<le> 1"
    by (simp add: count_list_distinct [OF dk])
  from dd have ddl: "distinct (dispose_log (calls ?s))" by simp
  have "c \<in> set (dispose_log (calls ?s)) \<longleftrightarrow>
        c \<in> set (constructed (calls ?s)) \<and> controllerRef ?s \<noteq> Some c"
    using dd by (cases "controllerRef ?s") (auto simp: k)
  then have 2: "count_list (dispose_log (calls ?s)) c =
     (if c \<in> set (constructed (calls ?s)) \<and> controllerRef ?s \<noteq> Some c then 1 else 0)"
    by (simp add: count_list_distinct [OF ddl])
  have 3: "deps ?s = None \<longrightarrow> dispose_log (calls ?s) = constructed (calls ?s)"
    using f(6) by (auto simp: k)
  from 1 2 3 show ?thesis by blast
qed

theorem dispose_once_per_construct_witness:
  "count_list (dispose_log (calls (run [Render 0 ''/'', Render 1 ''/'', Unmount]))) 1 = 1 \<and>
   count_list (dispose_log (calls (run [Render 0 ''/'', Render 1 ''/'']))) 1 = 0 \<and>
   dispose_log (calls (run [Render 0 ''/'', Render 1 ''/'', Unmount])) = [0, 1]"
  using dispose_once_per_construct [of "[Render 0 ''/'', Render 1 ''/'', Unmount]" 1]
    dispose_once_per_construct [of "[Render 0 ''/'', Render 1 ''/'']" 1]
  by (simp add: lifecycle_defs)

text \<open>
  Claim C2. In every state of the lifetime, between any two callbacks of any event
  after any sequence of events, the controllers constructed and not disposed are
  exactly the content of the slot: none when the slot is empty, and otherwise the one
  controller in it, which is the last one constructed. So there are never two live
  controllers. (The callbacks run to completion; the states inside one callback are
  not states of the lifetime.)
\<close>

theorem slot_holds_the_live_controller:
  assumes "t \<in> set (trajectory (schedule (run es) e) (run es))"
  shows "live (calls t) = slot t \<and> length (live (calls t)) \<le> 1 \<and>
         (controllerRef t = Some c \<longrightarrow>
            constructed (calls t) \<noteq> [] \<and> last (constructed (calls t)) = c)"
proof -
  from inv_run assms have c: "callback_inv t" by (rule trajectory_callback_inv)
  have "length (slot t) \<le> 1" by (simp add: slot_def split: option.splits)
  with callback_inv_live [OF c] callback_inv_last [OF c] show ?thesis by simp
qed

theorem slot_holds_the_live_controller_witness:
  "trajectory (schedule (run [Render 0 ''/'']) (Render 1 ''/a'')) (run [Render 0 ''/''])
     ! 1 \<in> set (trajectory (schedule (run [Render 0 ''/'']) (Render 1 ''/a''))
                    (run [Render 0 ''/''])) \<and>
   live (calls (trajectory (schedule (run [Render 0 ''/'']) (Render 1 ''/a''))
                  (run [Render 0 ''/'']) ! 1)) = [] \<and>
   live (calls (trajectory (schedule (run [Render 0 ''/'']) (Render 1 ''/a''))
                  (run [Render 0 ''/'']) ! 2)) = [1]"
proof -
  let ?tr = "trajectory (schedule (run [Render 0 ''/'']) (Render 1 ''/a'')) (run [Render 0 ''/''])"
  have 1: "?tr ! 1 \<in> set ?tr" by (simp add: lifecycle_defs)
  have 2: "?tr ! 2 \<in> set ?tr" by (simp add: lifecycle_defs)
  have s1: "slot (?tr ! 1) = []" by (simp add: lifecycle_defs slot_def)
  have s2: "slot (?tr ! 2) = [1]" by (simp add: lifecycle_defs slot_def)
  from slot_holds_the_live_controller [OF 1] slot_holds_the_live_controller [OF 2] 1 s1 s2 show ?thesis by simp
qed

text \<open>
  Claim C3. While the component is mounted (after any sequence of events that leaves it
  mounted, so the slot is filled), a render with a pathname different from the previous
  one adds exactly one \<open>SetCurrentPath\<close> call to the trace; it goes to the controller
  that is in the slot after the render and carries the new pathname. With the router
  unchanged that is the only call added and the controller is the one that was in the
  slot; with a new router the old controller is disposed and a new one constructed
  first, and the report goes to the new one.
\<close>

theorem path_change_reports_once:
  assumes "deps (run es) = Some (r0, p0)" "p \<noteq> p0"
  shows "\<exists>c0 c. controllerRef (run es) = Some c0 \<and>
           controllerRef (step (run es) (Render r p)) = Some c \<and>
           (r = r0 \<longrightarrow> c = c0) \<and>
           calls (step (run es) (Render r p)) =
             calls (run es) @ (if r = r0 then [] else [Dispose c0, Construct c r]) @
             [SetCurrentPath c p] \<and>
           path_log (added (run es) (step (run es) (Render r p))) = [(c, p)]"
proof -
  note f = inv_facts [OF inv_run [of es]]
  from f(6) assms(1) obtain c0 where c0: "controllerRef (run es) = Some c0" by auto
  with f(4) have cl: "cleanup (run es) = Some c0" by simp
  show ?thesis
  proof (cases "r = r0")
    case True
    with assms c0 show ?thesis
      by (simp add: step_def path_effect_def added_def)
  next
    case False
    with assms c0 cl show ?thesis
      by (simp add: step_def path_effect_def added_def mount_cleanup_def mount_effect_def
          createController_def)
  qed
qed

theorem path_change_reports_once_witness:
  "deps (run [Render 0 ''/'']) = Some (0, ''/'') \<and> ''/about'' \<noteq> ''/'' \<and>
   path_log (added (run [Render 0 ''/'']) (step (run [Render 0 ''/'']) (Render 0 ''/about'')))
     = [(0, ''/about'')]"
proof -
  have 1: "deps (run [Render 0 ''/'']) = Some (0, ''/'')" by (simp add: lifecycle_defs)
  have 2: "''/about'' \<noteq> ''/''" by simp
  have 3: "controllerRef (run [Render 0 ''/'']) = Some 0" by (simp add: lifecycle_defs)
  from path_change_reports_once [OF 1 2, of 0] 1 2 3 show ?thesis by auto
qed

text \<open>
  Claim C4. When a controller that was constructed with the handler of router \<open>r\<close>
  invokes that handler with a path, the only effect is one \<open>RouterPush\<close> call on \<open>r\<close>
  with exactly that path appended to the trace: any string is forwarded unchanged,
  once, and nothing else in the state changes.
\<close>

theorem navigation_forwarded_once:
  assumes "Construct c r \<in> set (calls (run es))"
  shows "step (run es) (NavigateTo c p) = (run es)\<lparr>calls := calls (run es) @ [RouterPush r p]\<rparr>"
proof -
  note f = inv_facts [OF inv_run [of es]]
  from f(2) have "distinct (map fst (handlers (run es)))"
    by (simp add: f(1) constructed_def [symmetric])
  moreover from assms have "(c, r) \<in> set (handlers (run es))"
    by (simp add: f(1) in_construct_log)
  ultimately have "map_of (handlers (run es)) c = Some r" by (rule map_of_is_SomeI)
  then show ?thesis by (simp add: step_def onNavigateTo_def)
qed

theorem navigation_forwarded_once_witness:
  "Construct 0 7 \<in> set (calls (run [Render 7 ''/''])) \<and>
   calls (step (run [Render 7 ''/'']) (NavigateTo 0 ''/products/42'')) =
     [Construct 0 7, SetCurrentPath 0 ''/'', RouterPush 7 ''/products/42'']"
proof -
  have 1: "Construct 0 7 \<in> set (calls (run [Render 7 ''/'']))" by (simp add: lifecycle_defs)
  have 2: "calls (run [Render 7 ''/'']) = [Construct 0 7, SetCurrentPath 0 ''/'']"
    by (simp add: lifecycle_defs)
  from navigation_forwarded_once [OF 1, of "''/products/42''"] 1 2 show ?thesis by simp
qed

text \<open>
  Claim C5. When the path effect runs while the slot is empty, it changes nothing: no
  call is made, nothing fails and nothing is recorded for later, since the state after
  is the state before.
\<close>

theorem path_report_skipped_on_empty_slot: "controllerRef s = None \<Longrightarrow> path_effect p s = s"
  by (simp add: path_effect_def)

theorem path_report_skipped_on_empty_slot_witness:
  "controllerRef (run [Render 0 ''/'', Unmount]) = None \<and>
   calls (path_effect ''/about'' (run [Render 0 ''/'', Unmount])) =
     [Construct 0 0, SetCurrentPath 0 ''/'', Dispose 0]"
proof -
  have 1: "controllerRef (run [Render 0 ''/'', Unmount]) = None" by (simp add: lifecycle_defs)
  have 2: "calls (run [Render 0 ''/'', Unmount]) = [Construct 0 0, SetCurrentPath 0 ''/'', Dispose 0]"
    by (simp add: lifecycle_defs)
  from path_report_skipped_on_empty_slot [OF 1, of "''/about''"] 1 2 show ?thesis by simp
qed

text \<open>
  Claim C6. Take any sequence of events, any next event, and any callback \<open>cb\<close> that
  the lifecycle runs for it, started in state \<open>t\<close>. The calls of \<open>cb\<close> are appended to
  the trace of \<open>t\<close>.
  \<^item> If \<open>cb\<close> reports a path to a controller, then \<open>cb\<close> is the path effect and the
    slot already holds that controller in \<open>t\<close>, before the callback starts; the
    controller was constructed and has not been disposed. So the mount effect, which
    constructs and stores in one callback, never reports, and a report never goes to a
    controller that was not stored first.
  \<^item> If \<open>cb\<close> forwards a navigation to a router, then the event is a handler
    invocation by some controller \<open>k\<close>, the construction of \<open>k\<close> itself with the handler
    of that router is in the trace of \<open>t\<close>, the slot held \<open>k\<close> in the state after some
    prefix of the events, and \<open>k\<close> is still in the slot unless it has been disposed.
  (The controller is taken to invoke its handler between callbacks.)
\<close>

theorem slot_filled_before_reports_and_navigation:
  assumes "i < length (schedule (run es) e)"
    and "t = trajectory (schedule (run es) e) (run es) ! i"
    and "cb = schedule (run es) e ! i"
  shows "trajectory (schedule (run es) e) (run es) ! Suc i = exec cb t \<and>
         calls (exec cb t) = calls t @ added t (exec cb t) \<and>
         (SetCurrentPath c p \<in> set (added t (exec cb t)) \<longrightarrow>
            cb = PathEffect p \<and> controllerRef t = Some c \<and>
            (\<exists>r. Construct c r \<in> set (calls t)) \<and> Dispose c \<notin> set (calls t)) \<and>
         (RouterPush r q \<in> set (added t (exec cb t)) \<longrightarrow>
            (\<exists>k. e = NavigateTo k q \<and> t = run es \<and> Construct k r \<in> set (calls t) \<and>
                 (controllerRef t = Some k \<or> Dispose k \<in> set (calls t)) \<and>
                 (\<exists>n\<le>length es. controllerRef (run (take n es)) = Some k)))"
proof -
  let ?s = "run es"
  have 1: "trajectory (schedule ?s e) ?s ! Suc i = exec cb t"
    using trajectory_Suc [OF assms(1)] assms(2,3) by simp
  have 2: "calls (exec cb t) = calls t @ added t (exec cb t)" by (rule calls_exec)
  have "t \<in> set (trajectory (schedule ?s e) ?s)"
    using assms(1,2) by (simp add: length_trajectory)
  with inv_run have ci: "callback_inv t" by (rule trajectory_callback_inv)
  have 3: "cb = PathEffect p \<and> controllerRef t = Some c \<and>
           (\<exists>r. Construct c r \<in> set (calls t)) \<and> Dispose c \<notin> set (calls t)"
    if a: "SetCurrentPath c p \<in> set (added t (exec cb t))"
  proof -
    from report_added [OF a] have cb: "cb = PathEffect p" and sl: "controllerRef t = Some c"
      by simp_all
    from ci sl have d: "dispose_log (calls t) @ [c] = [0..<fresh t]"
      and k: "constructed (calls t) = [0..<fresh t]"
      by (simp_all add: callback_inv_def ownership_inv_def)
    have "distinct (dispose_log (calls t) @ [c])" by (simp only: d distinct_upt)
    then have n: "Dispose c \<notin> set (calls t)" by (simp add: in_dispose_log)
    have "c \<in> set (dispose_log (calls t) @ [c])" by simp
    then have "c \<in> set (constructed (calls t))" by (simp only: d k)
    then have "\<exists>r. Construct c r \<in> set (calls t)"
      by (auto simp: constructed_def in_construct_log)
    with cb sl n show ?thesis by simp
  qed
  have 4: "\<exists>k. e = NavigateTo k q \<and> t = run es \<and> Construct k r \<in> set (calls t) \<and>
                 (controllerRef t = Some k \<or> Dispose k \<in> set (calls t)) \<and>
                 (\<exists>n\<le>length es. controllerRef (run (take n es)) = Some k)"
    if a: "RouterPush r q \<in> set (added t (exec cb t))"
  proof -
    from push_added [OF a] have cb: "cb = Handler r q" .
    with assms(1,3) have "Handler r q \<in> set (schedule ?s e)" by (metis nth_mem)
    from handler_scheduled [OF this] obtain k where e: "e = NavigateTo k q"
      and h: "map_of (handlers ?s) k = Some r" and sch: "schedule ?s e = [Handler r q]"
      by blast
    from assms(1,2) sch have t: "t = ?s" by simp
    note f = inv_facts [OF inv_run [of es]]
    from h have "(k, r) \<in> set (handlers ?s)" by (rule map_of_SomeD)
    then have kr: "(k, r) \<in> set (construct_log (calls ?s))" by (simp add: f(1))
    then have con: "Construct k r \<in> set (calls ?s)" by (simp add: in_construct_log)
    from kr have "k \<in> set (constructed (calls ?s))" by (force simp: constructed_def)
    then have lt: "k < fresh ?s" by (simp add: f(2))
    then have "k \<in> set (dispose_log (calls ?s) @ slot ?s)" by (simp only: f(3)) simp
    then have "controllerRef ?s = Some k \<or> Dispose k \<in> set (calls ?s)"
      by (auto simp: slot_def in_dispose_log split: option.splits)
    with e t con was_in_slot [OF lt] show ?thesis by simp
  qed
  from 1 2 3 4 show ?thesis by blast
qed

theorem slot_filled_before_reports_and_navigation_witness:
  "1 < length (schedule (run []) (Render 3 ''/'')) \<and>
   schedule (run []) (Render 3 ''/'') ! 1 = PathEffect ''/'' \<and>
   SetCurrentPath 0 ''/'' \<in> set (added (trajectory (schedule (run []) (Render 3 ''/'')) (run []) ! 1)
      (exec (PathEffect ''/'') (trajectory (schedule (run []) (Render 3 ''/'')) (run []) ! 1))) \<and>
   controllerRef (trajectory (schedule (run []) (Render 3 ''/'')) (run []) ! 1) = Some 0 \<and>
   0 < length (schedule (run [Render 3 ''/'']) (NavigateTo 0 ''/x'')) \<and>
   RouterPush 3 ''/x'' \<in> set (added (run [Render 3 ''/''])
      (exec (Handler 3 ''/x'') (run [Render 3 ''/'']))) \<and>
   (\<exists>n\<le>length [Render 3 ''/'']. controllerRef (run (take n [Render 3 ''/''])) = Some 0)"
proof -
  let ?t = "trajectory (schedule (run []) (Render 3 ''/'')) (run []) ! 1"
  have a1: "1 < length (schedule (run []) (Render 3 ''/''))" by (simp add: lifecycle_defs)
  have a2: "schedule (run []) (Render 3 ''/'') ! 1 = PathEffect ''/''" by (simp add: lifecycle_defs)
  have a3: "SetCurrentPath 0 ''/'' \<in> set (added ?t (exec (PathEffect ''/'') ?t))"
    by (simp add: lifecycle_defs added_def)
  have b1: "0 < length (schedule (run [Render 3 ''/'']) (NavigateTo 0 ''/x''))"
    by (simp add: lifecycle_defs)
  have b2: "schedule (run [Render 3 ''/'']) (NavigateTo 0 ''/x'') ! 0 = Handler 3 ''/x''"
    by (simp add: lifecycle_defs)
  have b3: "trajectory (schedule (run [Render 3 ''/'']) (NavigateTo 0 ''/x'')) (run [Render 3 ''/'']) ! 0
     = run [Render 3 ''/'']"
    by (simp add: lifecycle_defs)
  have b4: "RouterPush 3 ''/x'' \<in> set (added (run [Render 3 ''/''])
      (exec (Handler 3 ''/x'') (run [Render 3 ''/''])))"
    by (simp add: lifecycle_defs added_def)
  from slot_filled_before_reports_and_navigation [OF a1 refl a2 [symmetric], of 0 "''/''"] a3
  have r: "controllerRef ?t = Some 0" by blast
  from slot_filled_before_reports_and_navigation [OF b1 b3 [symmetric] b2 [symmetric], of _ _ 3 "''/x''"] b4
  have n: "\<exists>n\<le>length [Render 3 ''/'']. controllerRef (run (take n [Render 3 ''/''])) = Some 0"
    by blast
  from a1 a2 a3 r b1 b4 n show ?thesis by blast
qed

text \<open>
  Claim C7, as stated, fails: the path effect also runs on the mount, so the trace of
  mount at \<open>/\<close>, change to \<open>/about\<close>, unmount has four calls, not three.
\<close>

theorem mount_about_unmount_not_three_calls:
  "calls (run [Render 0 ''/'', Render 0 ''/about'', Unmount]) \<noteq>
     [Construct 0 0, SetCurrentPath 0 ''/about'', Dispose 0]"
  by (simp add: lifecycle_defs)

text \<open>
  Claim C7, amended. For the events mount at a pathname other than \<open>/about\<close>, then the
  pathname changes to \<open>/about\<close>, then unmount, the calls are exactly: the construction,
  \<open>SetCurrentPath\<close> with the pathname of the mount, \<open>SetCurrentPath\<close> with \<open>/about\<close>,
  and the dispose, in this order.
\<close>

theorem mount_about_unmount_trace:
  "p0 \<noteq> ''/about'' \<Longrightarrow>
   calls (run [Render r p0, Render r ''/about'', Unmount]) =
     [Construct 0 r, SetCurrentPath 0 p0, SetCurrentPath 0 ''/about'', Dispose 0]"
  by (simp add: lifecycle_defs)

theorem mount_about_unmount_trace_witness:
  "''/'' \<noteq> ''/about'' \<and>
   calls (run [Render 5 ''/'', Render 5 ''/about'', Unmount]) =
     [Construct 0 5, SetCurrentPath 0 ''/'', SetCurrentPath 0 ''/about'', Dispose 0]"
proof -
  have 1: "''/'' \<noteq> ''/about''" by simp
  from mount_about_unmount_trace [OF 1, of 5] 1 show ?thesis by simp
qed

text \<open>
  Claim C8. A render of the mounted component with the router of the previous render
  does not run the mount effect again: the slot, the pending cleanup and the
  controller counter are unchanged, the trace so far is kept, and the calls added
  contain no construction and no dispose.
\<close>

theorem rerender_same_router_keeps_controller:
  assumes "deps s = Some (r, p0)"
  shows "controllerRef (step s (Render r p)) = controllerRef s \<and>
         cleanup (step s (Render r p)) = cleanup s \<and>
         fresh (step s (Render r p)) = fresh s \<and>
         take (length (calls s)) (calls (step s (Render r p))) = calls s \<and>
         constructed (added s (step s (Render r p))) = [] \<and>
         dispose_log (added s (step s (Render r p))) = []"
  using assms
  by (simp add: step_def added_def path_effect_def split: option.splits)

theorem rerender_same_router_keeps_controller_witness:
  "deps (run [Render 0 ''/'']) = Some (0, ''/'') \<and>
   controllerRef (step (run [Render 0 ''/'']) (Render 0 ''/about'')) = Some 0 \<and>
   constructed (added (run [Render 0 ''/'']) (step (run [Render 0 ''/'']) (Render 0 ''/about''))) = []"
proof -
  have 1: "deps (run [Render 0 ''/'']) = Some (0, ''/'')" by (simp add: lifecycle_defs)
  have 2: "controllerRef (run [Render 0 ''/'']) = Some 0" by (simp add: lifecycle_defs)
  from rerender_same_router_keeps_controller [OF 1, of "''/about''"] 1 2 show ?thesis by simp
qed

text \<open>
  Claim C9. On a mount (a render while the component is not mounted) exactly two calls
  are added: the construction of a new controller and then one \<open>SetCurrentPath\<close> on
  that controller with the pathname of the mounting render.
\<close>

theorem mount_reports_initial_path:
  assumes "deps s = None"
  shows "calls (step s (Render r p)) =
           calls s @ [Construct (fresh s) r, SetCurrentPath (fresh s) p] \<and>
         controllerRef (step s (Render r p)) = Some (fresh s) \<and>
         path_log (added s (step s (Render r p))) = [(fresh s, p)]"
  using assms
  by (simp add: step_def added_def mount_effect_def createController_def path_effect_def)

theorem mount_reports_initial_path_witness:
  "deps (run []) = None \<and>
   calls (step (run []) (Render 4 ''/home'')) = [Construct 0 4, SetCurrentPath 0 ''/home'']"
proof -
  have 1: "deps (run []) = None" by (simp add: lifecycle_defs)
  have 2: "calls (run []) = []" "fresh (run []) = 0" by (simp_all add: lifecycle_defs)
  from mount_reports_initial_path [OF 1, of 4 "''/home''"] 1 2 show ?thesis by simp
qed

text \<open>
  Claim C10. When the mounted component renders with a new router and the same
  pathname, the old controller is disposed and a new one constructed, and no path is
  reported. After that, over every sequence of events whose renders all keep that
  pathname, the replacement controller never receives a \<open>SetCurrentPath\<close> call.
\<close>

theorem replacement_controller_not_told_path:
  assumes "deps (run es) = Some (r0, p)" "r \<noteq> r0" "list_all (keeps_path p) fs"
  shows "\<exists>c0. controllerRef (run es) = Some c0 \<and>
           calls (step (run es) (Render r p)) =
             calls (run es) @ [Dispose c0, Construct (fresh (run es)) r] \<and>
           controllerRef (step (run es) (Render r p)) = Some (fresh (run es)) \<and>
           fresh (run es) \<notin> fst ` set (path_log (calls (run (es @ Render r p # fs))))"
proof -
  let ?s = "run es" and ?k = "fresh (run es)"
  let ?t = "step ?s (Render r p)"
  note f = inv_facts [OF inv_run [of es]]
  from f(6) assms(1) obtain c0 where c0: "controllerRef ?s = Some c0" by auto
  with f(4) have cl: "cleanup ?s = Some c0" by simp
  from assms(1,2) c0 cl
  have calls: "calls ?t = calls ?s @ [Dispose c0, Construct ?k r]"
    and slot: "controllerRef ?t = Some ?k"
    and fr: "fresh ?t = Suc ?k"
    and dp: "deps ?t = Some (r, p)"
    by (simp_all add: step_def mount_cleanup_def mount_effect_def createController_def)
  have "?k \<notin> fst ` set (path_log (calls ?s))"
    using reported_lt_fresh [OF inv_run [of es]] by force
  then have quiet: "?k \<notin> fst ` set (path_log (calls ?t))"
    by (simp add: calls)
  have "?k \<notin> fst ` set (path_log (calls (run_from ?t fs)))"
    by (rule silent_run_from [OF assms(3) inv_step [OF inv_run] _ quiet])
      (simp_all add: fr dp)
  moreover have "run (es @ Render r p # fs) = run_from ?t fs"
    by (simp add: run_def)
  ultimately show ?thesis using c0 calls slot by simp
qed

theorem replacement_controller_not_told_path_witness:
  "deps (run [Render 0 ''/a'']) = Some (0, ''/a'') \<and> (1::nat) \<noteq> 0 \<and>
   list_all (keeps_path ''/a'') [NavigateTo 1 ''/x'', Render 1 ''/a''] \<and>
   calls (step (run [Render 0 ''/a'']) (Render 1 ''/a'')) =
     [Construct 0 0, SetCurrentPath 0 ''/a'', Dispose 0, Construct 1 1] \<and>
   1 \<notin> fst ` set (path_log (calls (run ([Render 0 ''/a''] @ Render 1 ''/a'' #
          [NavigateTo 1 ''/x'', Render 1 ''/a'']))))"
proof -
  have 1: "deps (run [Render 0 ''/a'']) = Some (0, ''/a'')" by (simp add: lifecycle_defs)
  have 2: "(1::nat) \<noteq> 0" by simp
  have 3: "list_all (keeps_path ''/a'') [NavigateTo 1 ''/x'', Render 1 ''/a'']"
    by (simp add: keeps_path_def)
  have 4: "fresh (run [Render 0 ''/a'']) = 1" 
    "calls (run [Render 0 ''/a'']) = [Construct 0 0, SetCurrentPath 0 ''/a'']"
    "controllerRef (run [Render 0 ''/a'']) = Some 0"
    by (simp_all add: lifecycle_defs)
  from replacement_controller_not_told_path [OF 1 2 3] 1 2 3 4 show ?thesis by auto
qed

end
